theory Spec2Isabelle
  imports Main "HOL-Library.Word"
begin

section \<open>The event bus (src/shared/utils/eventBus.ts)\<close>

text \<open>
  The class \<^verbatim>\<open>EventBus\<close> keeps one private field, \<^verbatim>\<open>events\<close>, a plain
  object that maps an event name to an array of callbacks. Callbacks are JavaScript
  functions, compared by reference (\<^verbatim>\<open>cb !== callback\<close>), and a callback may call
  the bus again while it runs. The model therefore has
  \<^item> callback references: a function of the application, named by a number, or the
    closure \<^verbatim>\<open>onceCallback\<close> that \<^verbatim>\<open>once\<close> allocates (one new reference per call
    of \<^verbatim>\<open>once\<close>);
  \<^item> a store of arrays, because \<^verbatim>\<open>push\<close> changes an array in place while
    \<^verbatim>\<open>filter\<close> builds a new one, and \<^verbatim>\<open>forEach\<close> keeps reading the array it
    started on;
  \<^item> the code of the application's callbacks as a parameter \<open>prog\<close>: what the function
    number \<open>f\<close> does with the bus when it is called with data \<open>d\<close>.
\<close>

type_synonym addr = nat

datatype cb =
    Fn nat
  | OnceCallback nat string nat

text \<open>The application function behind a callback reference: \<^verbatim>\<open>onceCallback\<close> calls
  the \<^verbatim>\<open>callback\<close> it has captured.\<close>

fun fn_of :: "cb \<Rightarrow> nat" where
  "fn_of (Fn f) = f"
| "fn_of (OnceCallback i e f) = f"

datatype 'd cmd =
    On string cb
  | Off string cb
  | Emit string 'd
  | Once string nat
  | Clear
  | Throw

datatype outcome = Normal | Thrown

record 'd bus =
  events :: "string \<rightharpoonup> addr"
  arrays :: "addr \<Rightarrow> cb list"
  fresh :: nat
  calls :: "(nat \<times> 'd) list"
  console :: "string list"

text \<open>
  \<open>events\<close> holds the own properties of \<^verbatim>\<open>this.events\<close>; \<open>arrays\<close> is the store of
  array objects and \<open>fresh\<close> the next unused reference (arrays and closures). \<open>calls\<close>
  is the trace of the application functions called, with the data each one received, and
  \<open>console\<close> the event names that \<^verbatim>\<open>console.error\<close> reported.
\<close>

definition empty_bus :: "'d bus" where
  "empty_bus = \<lparr>events = Map.empty, arrays = (\<lambda>a. []), fresh = 0, calls = [], console = []\<rparr>"

text \<open>
  \<^verbatim>\<open>this.events\<close> is created by the object literal \<^verbatim>\<open>{}\<close>, so its prototype is
  \<^verbatim>\<open>Object.prototype\<close>, and \<^verbatim>\<open>this.events[event]\<close> finds the properties defined
  there when the object has no own property of that name. All of them are truthy (functions,
  or the prototype object itself for \<^verbatim>\<open>__proto__\<close>) and none has a method
  \<^verbatim>\<open>push\<close>, \<^verbatim>\<open>filter\<close> or \<^verbatim>\<open>forEach\<close>.
\<close>

definition object_prototype_keys :: "string list" where
  "object_prototype_keys =
     [''constructor'', ''__defineGetter__'', ''__defineSetter__'', ''hasOwnProperty'',
      ''__lookupGetter__'', ''__lookupSetter__'', ''isPrototypeOf'', ''propertyIsEnumerable'',
      ''toString'', ''valueOf'', ''__proto__'', ''toLocaleString'']"

datatype property = Undefined | Array addr | Inherited

definition get_events :: "'d bus \<Rightarrow> string \<Rightarrow> property" where
  "get_events s e =
     (case events s e of
        Some a \<Rightarrow> Array a
      | None \<Rightarrow> if e \<in> set object_prototype_keys then Inherited else Undefined)"

text \<open>The callbacks registered under a name, in the order of the array.\<close>

definition subscribers :: "'d bus \<Rightarrow> string \<Rightarrow> cb list" where
  "subscribers s e = (case events s e of Some a \<Rightarrow> arrays s a | None \<Rightarrow> [])"

text \<open>
  \<^verbatim>\<open>on\<close>: when the guard sees nothing, a new empty array is stored under the name;
  then the callback is pushed on the array found there. On an inherited property the
  guard is false and \<^verbatim>\<open>push\<close> is not a function: TypeError.
\<close>

definition push :: "addr \<Rightarrow> cb \<Rightarrow> 'd bus \<Rightarrow> 'd bus" where
  "push a c s = s\<lparr>arrays := (arrays s)(a := arrays s a @ [c])\<rparr>"

definition on :: "string \<Rightarrow> cb \<Rightarrow> 'd bus \<Rightarrow> outcome \<times> 'd bus" where
  "on e c s =
     (case get_events s e of
        Inherited \<Rightarrow> (Thrown, s)
      | Array a \<Rightarrow> (Normal, push a c s)
      | Undefined \<Rightarrow>
          (let a = fresh s;
               s1 = s\<lparr>events := (events s)(e \<mapsto> a),
                      arrays := (arrays s)(a := []),
                      fresh := Suc a\<rparr>
           in (Normal, push a c s1)))"

text \<open>
  \<^verbatim>\<open>off\<close>: nothing to do when the guard sees nothing; otherwise the name gets a new
  array, the old one filtered, and the property is deleted when that array is empty.
\<close>

definition off :: "string \<Rightarrow> cb \<Rightarrow> 'd bus \<Rightarrow> outcome \<times> 'd bus" where
  "off e c s =
     (case get_events s e of
        Undefined \<Rightarrow> (Normal, s)
      | Inherited \<Rightarrow> (Thrown, s)
      | Array a \<Rightarrow>
          (let a' = fresh s;
               xs = filter (\<lambda>x. x \<noteq> c) (arrays s a);
               s1 = s\<lparr>events := (events s)(e \<mapsto> a'),
                      arrays := (arrays s)(a' := xs),
                      fresh := Suc a'\<rparr>
           in if length xs = 0
              then (Normal, s1\<lparr>events := (events s1)(e := None)\<rparr>)
              else (Normal, s1)))"

text \<open>The function that \<^verbatim>\<open>on\<close> returns calls \<^verbatim>\<open>off\<close> with the same arguments.\<close>

datatype handle = Unsubscribe string cb

fun call_handle :: "handle \<Rightarrow> 'd bus \<Rightarrow> outcome \<times> 'd bus" where
  "call_handle (Unsubscribe e c) s = off e c s"

definition on_handle :: "string \<Rightarrow> cb \<Rightarrow> handle" where
  "on_handle e c = Unsubscribe e c"

text \<open>
  \<^verbatim>\<open>once\<close> allocates the closure \<^verbatim>\<open>onceCallback\<close> and registers it with
  \<^verbatim>\<open>on\<close>.
\<close>

definition once :: "string \<Rightarrow> nat \<Rightarrow> 'd bus \<Rightarrow> outcome \<times> 'd bus" where
  "once e f s = on e (OnceCallback (fresh s) e f) (s\<lparr>fresh := Suc (fresh s)\<rparr>)"

definition clear :: "'d bus \<Rightarrow> 'd bus" where
  "clear s = s\<lparr>events := Map.empty\<rparr>"

text \<open>
  \<^verbatim>\<open>Array.prototype.forEach\<close> reads the length once, then visits the indices
  \<open>k, k + 1, \<dots>\<close> below it, reading the array again at every index (an index that the
  array no longer has is skipped). The function given to it by \<^verbatim>\<open>emit\<close> calls the
  callback inside \<^verbatim>\<open>try\<close>, and \<^verbatim>\<open>catch\<close> reports the error on the console.
  \<open>None\<close> is a call that did not return within the depth of calls allowed.
\<close>

type_synonym 'd result = "(outcome \<times> 'd bus) option"

primrec forEach ::
  "(cb \<Rightarrow> 'd \<Rightarrow> 'd bus \<Rightarrow> 'd result) \<Rightarrow> addr \<Rightarrow> string \<Rightarrow> 'd \<Rightarrow> nat \<Rightarrow> nat \<Rightarrow> 'd bus \<Rightarrow> 'd result"
where
  "forEach callf a e d 0 k s = Some (Normal, s)"
| "forEach callf a e d (Suc m) k s =
     (if k < length (arrays s a)
      then (case callf (arrays s a ! k) d s of
              None \<Rightarrow> None
            | Some (Normal, s1) \<Rightarrow> forEach callf a e d m (Suc k) s1
            | Some (Thrown, s1) \<Rightarrow>
                forEach callf a e d m (Suc k) (s1\<lparr>console := console s1 @ [e]\<rparr>))
      else forEach callf a e d m (Suc k) s)"

definition emit_with ::
  "(cb \<Rightarrow> 'd \<Rightarrow> 'd bus \<Rightarrow> 'd result) \<Rightarrow> string \<Rightarrow> 'd \<Rightarrow> 'd bus \<Rightarrow> 'd result"
where
  "emit_with callf e d s =
     (case get_events s e of
        Undefined \<Rightarrow> Some (Normal, s)
      | Inherited \<Rightarrow> Some (Thrown, s)
      | Array a \<Rightarrow> forEach callf a e d (length (arrays s a)) 0 s)"

text \<open>
  The body of an application callback is a sequence of calls of the bus; an exception
  ends the body and goes to the caller.
\<close>

fun exec ::
  "(cb \<Rightarrow> 'd \<Rightarrow> 'd bus \<Rightarrow> 'd result) \<Rightarrow> 'd cmd \<Rightarrow> 'd bus \<Rightarrow> 'd result"
where
  "exec callf (On e x) s = Some (on e x s)"
| "exec callf (Off e x) s = Some (off e x s)"
| "exec callf (Emit e d) s = emit_with callf e d s"
| "exec callf (Once e f) s = Some (once e f s)"
| "exec callf Clear s = Some (Normal, clear s)"
| "exec callf Throw s = Some (Thrown, s)"

fun run ::
  "(cb \<Rightarrow> 'd \<Rightarrow> 'd bus \<Rightarrow> 'd result) \<Rightarrow> 'd cmd list \<Rightarrow> 'd bus \<Rightarrow> 'd result"
where
  "run callf [] s = Some (Normal, s)"
| "run callf (c # cs) s =
     (case exec callf c s of
        None \<Rightarrow> None
      | Some (Thrown, s1) \<Rightarrow> Some (Thrown, s1)
      | Some (Normal, s1) \<Rightarrow> run callf cs s1)"

text \<open>
  Calling a callback reference, with at most \<open>n\<close> nested calls. An application function
  is recorded in \<open>calls\<close> and its body runs. \<^verbatim>\<open>onceCallback\<close> calls the captured
  callback and then, when that call has returned, \<^verbatim>\<open>this.off(event, onceCallback)\<close>.
\<close>

primrec call :: "(nat \<Rightarrow> 'd \<Rightarrow> 'd cmd list) \<Rightarrow> nat \<Rightarrow> cb \<Rightarrow> 'd \<Rightarrow> 'd bus \<Rightarrow> 'd result" where
  "call prog 0 c d s = None"
| "call prog (Suc n) c d s =
     (case c of
        Fn f \<Rightarrow> run (call prog n) (prog f d) (s\<lparr>calls := calls s @ [(f, d)]\<rparr>)
      | OnceCallback i e f \<Rightarrow>
          (case call prog n (Fn f) d s of
             None \<Rightarrow> None
           | Some (Thrown, s1) \<Rightarrow> Some (Thrown, s1)
           | Some (Normal, s1) \<Rightarrow> Some (off e (OnceCallback i e f) s1)))"

definition emit :: "(nat \<Rightarrow> 'd \<Rightarrow> 'd cmd list) \<Rightarrow> nat \<Rightarrow> string \<Rightarrow> 'd \<Rightarrow> 'd bus \<Rightarrow> 'd result" where
  "emit prog n e d s = emit_with (call prog n) e d s"

subsection \<open>Callbacks that do not publish\<close>

text \<open>
  A callback body without a call of \<^verbatim>\<open>emit\<close>: it may subscribe, unsubscribe, clear
  the bus and throw.
\<close>

fun is_emit :: "'d cmd \<Rightarrow> bool" where
  "is_emit (Emit e d) = True"
| "is_emit c = False"

definition no_emit :: "'d cmd list \<Rightarrow> bool" where
  "no_emit cs = (\<forall>c \<in> set cs. \<not> is_emit c)"

text \<open>
  A callback that does not touch the bus: a function of the application whose body
  returns at once or throws.
\<close>

definition opaque :: "(nat \<Rightarrow> 'd \<Rightarrow> 'd cmd list) \<Rightarrow> 'd \<Rightarrow> cb \<Rightarrow> bool" where
  "opaque prog d c =
     (case c of Fn f \<Rightarrow> set (prog f d) \<subseteq> {Throw} | OnceCallback i e f \<Rightarrow> False)"

definition throws :: "(nat \<Rightarrow> 'd \<Rightarrow> 'd cmd list) \<Rightarrow> 'd \<Rightarrow> cb \<Rightarrow> bool" where
  "throws prog d c = (Throw \<in> set (prog (fn_of c) d))"

text \<open>
  How a later state of the store relates to an earlier one: no reference is reused, and
  an array that existed has only been appended to.
\<close>

definition grows :: "'d bus \<Rightarrow> 'd bus \<Rightarrow> bool" where
  "grows s s' = (fresh s \<le> fresh s' \<and>
     (\<forall>a < fresh s. \<exists>ys. arrays s' a = arrays s a @ ys))"

definition quiet :: "'d bus \<Rightarrow> 'd bus \<Rightarrow> bool" where
  "quiet s s' = (grows s s' \<and> calls s' = calls s \<and> console s' = console s)"

definition called :: "nat \<Rightarrow> 'd \<Rightarrow> 'd bus \<Rightarrow> 'd bus \<Rightarrow> bool" where
  "called f d s s' = (grows s s' \<and> calls s' = calls s @ [(f, d)] \<and> console s' = console s)"

text \<open>What a call of \<^verbatim>\<open>emit\<close> returned and the trace of calls after it.\<close>

definition outcome_and_calls :: "'d result \<Rightarrow> (outcome \<times> (nat \<times> 'd) list) option" where
  "outcome_and_calls r = map_option (\<lambda>(out, s). (out, calls s)) r"

subsection \<open>Example buses and callbacks\<close>

text \<open>Two subscribers of one event, the first of which throws.\<close>

definition two_subscribers :: "nat bus" where
  "two_subscribers =
     snd (on ''task:created'' (Fn 2) (snd (on ''task:created'' (Fn 1) empty_bus)))"

definition first_throws :: "nat \<Rightarrow> nat \<Rightarrow> nat cmd list" where
  "first_throws f d = (if f = 1 then [Throw] else [])"

text \<open>
  Three subscribers: the first unsubscribes itself, the second unsubscribes the third,
  and the third subscribes a fourth.
\<close>

definition three_subscribers :: "nat bus" where
  "three_subscribers =
     snd (on ''task:updated'' (Fn 3)
       (snd (on ''task:updated'' (Fn 2)
         (snd (on ''task:updated'' (Fn 1) empty_bus)))))"

definition unsubscribing :: "nat \<Rightarrow> nat \<Rightarrow> nat cmd list" where
  "unsubscribing f d =
     (if f = 1 then [Off ''task:updated'' (Fn 1)]
      else if f = 2 then [Off ''task:updated'' (Fn 3)]
      else if f = 3 then [On ''task:updated'' (Fn 4)]
      else [])"

text \<open>
  A callback registered with \<^verbatim>\<open>once\<close> that publishes the same event again, with other
  data, the first time it is called (a handler that answers \<open>0\<close> with \<open>1\<close>).
\<close>

definition republishing :: "nat \<Rightarrow> nat \<Rightarrow> nat cmd list" where
  "republishing f d = (if f = 0 \<and> d = 0 then [Emit ''ping'' 1] else [])"

definition once_registered :: "nat bus" where
  "once_registered = snd (once ''ping'' 0 empty_bus)"

text \<open>The same callback registered twice, and another one between the two.\<close>

definition registered_twice :: "nat bus" where
  "registered_twice =
     snd (on ''theme:changed'' (Fn 1)
       (snd (on ''theme:changed'' (Fn 2)
         (snd (on ''theme:changed'' (Fn 1) empty_bus)))))"

definition silent :: "nat \<Rightarrow> nat \<Rightarrow> nat cmd list" where
  "silent f d = []"

definition always_throws :: "nat \<Rightarrow> nat \<Rightarrow> nat cmd list" where
  "always_throws f d = [Throw]"

text \<open>
  The states the bus can be in: every array stored under a name has been allocated, and
  no own property has a name that \<^verbatim>\<open>Object.prototype\<close> defines (the guard of
  \<^verbatim>\<open>on\<close> never creates one).
\<close>

definition wf_bus :: "'d bus \<Rightarrow> bool" where
  "wf_bus s = (\<forall>e a. events s e = Some a \<longrightarrow> a < fresh s \<and> e \<notin> set object_prototype_keys)"

section \<open>The optimistic overlay (TodoListEnhanced.tsx, TaskList.tsx)\<close>

text \<open>
  Both components give \<^verbatim>\<open>useOptimistic\<close> the confirmed list and a reducer; what they
  render is the confirmed list with the reducer applied to every pending update, in the
  order the updates were made. The reducers are modelled twice: on values, as functions
  on lists, and on a store of objects and arrays, where \<^verbatim>\<open>[x, ...state]\<close>,
  \<^verbatim>\<open>map\<close>, \<^verbatim>\<open>filter\<close> and \<^verbatim>\<open>{...todo, completed: !todo.completed}\<close>
  allocate and the question whether the arguments are ever written to can be asked.
\<close>

subsection \<open>The data (types/todo.ts, features/tasks/types/index.ts)\<close>

record todo =
  todo_id :: string
  todo_text :: string
  todo_completed :: bool
  todo_createdAt :: int

datatype priority = Low | Medium | High

record task =
  task_id :: string
  task_title :: string
  task_description :: "string option"
  task_completed :: bool
  task_priority :: priority
  task_createdAt :: int
  task_updatedAt :: int

subsection \<open>The reducers on values\<close>

datatype OptimisticAction = Add todo | Toggle string | Remove string

fun todo_reducer :: "todo list \<Rightarrow> OptimisticAction \<Rightarrow> todo list" where
  "todo_reducer state (Add t) = t # state"
| "todo_reducer state (Toggle i) =
     map (\<lambda>t. if todo_id t = i then t\<lparr>todo_completed := \<not> todo_completed t\<rparr> else t) state"
| "todo_reducer state (Remove i) = filter (\<lambda>t. todo_id t \<noteq> i) state"

definition optimisticTodos :: "todo list \<Rightarrow> OptimisticAction list \<Rightarrow> todo list" where
  "optimisticTodos todos pending = foldl todo_reducer todos pending"

text \<open>
  The action of \<^verbatim>\<open>TaskList\<close> has two optional fields. \<^verbatim>\<open>action.task?.id\<close> is
  undefined when there is no task, and \<^verbatim>\<open>action.id\<close> may be undefined; an id, a
  string, is never equal to undefined.
\<close>

datatype task_action_type = ToggleType | DeleteType

record task_action =
  action_type :: task_action_type
  action_task :: "task option"
  action_id :: "string option"

definition task_reducer :: "task list \<Rightarrow> task_action \<Rightarrow> task list" where
  "task_reducer state action =
     (case action_type action of
        ToggleType \<Rightarrow>
          map (\<lambda>t. if Some (task_id t) = map_option task_id (action_task action)
                    then t\<lparr>task_completed := \<not> task_completed t\<rparr> else t) state
      | DeleteType \<Rightarrow> filter (\<lambda>t. Some (task_id t) \<noteq> action_id action) state)"

definition optimisticTasks :: "task list \<Rightarrow> task_action list \<Rightarrow> task list" where
  "optimisticTasks tasks pending = foldl task_reducer tasks pending"

text \<open>The todos that pending updates add, and the id that an action of \<^verbatim>\<open>TaskList\<close>
  is compared with (none when the field is undefined).\<close>

fun adds :: "OptimisticAction list \<Rightarrow> todo list" where
  "adds [] = []"
| "adds (Add t # as) = t # adds as"
| "adds (a # as) = adds as"

definition task_action_target :: "task_action \<Rightarrow> string option" where
  "task_action_target action =
     (case action_type action of
        ToggleType \<Rightarrow> map_option task_id (action_task action)
      | DeleteType \<Rightarrow> action_id action)"

text \<open>
  \<^verbatim>\<open>handleAddTodo\<close>, when \<^verbatim>\<open>addTodoAction\<close> has resolved with \<^verbatim>\<open>newTodo\<close>:
  \<^verbatim>\<open>setTodos((prev) => [newTodo, ...prev])\<close>. The pending update ends with the
  transition.
\<close>

definition commit_add :: "todo \<Rightarrow> todo list \<Rightarrow> todo list" where
  "commit_add newTodo prev = newTodo # prev"

subsection \<open>The reducers on a store\<close>

record 'o heap =
  objects :: "addr \<Rightarrow> 'o"
  lists :: "addr \<Rightarrow> addr list"
  top :: addr

definition new_object :: "'o \<Rightarrow> 'o heap \<Rightarrow> addr \<times> 'o heap" where
  "new_object v h = (top h, h\<lparr>objects := (objects h)(top h := v), top := Suc (top h)\<rparr>)"

definition new_list :: "addr list \<Rightarrow> 'o heap \<Rightarrow> addr \<times> 'o heap" where
  "new_list rs h = (top h, h\<lparr>lists := (lists h)(top h := rs), top := Suc (top h)\<rparr>)"

text \<open>
  \<^verbatim>\<open>state.map((t) => p(t) ? {...t, completed: !t.completed} : t)\<close>: the elements of
  the new array are new objects where \<open>p\<close> holds and the old references elsewhere.
\<close>

fun map_refs :: "('o \<Rightarrow> bool) \<Rightarrow> ('o \<Rightarrow> 'o) \<Rightarrow> addr list \<Rightarrow> 'o heap \<Rightarrow> addr list \<times> 'o heap" where
  "map_refs p upd [] h = ([], h)"
| "map_refs p upd (r # rs) h =
     (if p (objects h r)
      then (case new_object (upd (objects h r)) h of
              (r', h1) \<Rightarrow> (case map_refs p upd rs h1 of (rs', h2) \<Rightarrow> (r' # rs', h2)))
      else (case map_refs p upd rs h of (rs', h2) \<Rightarrow> (r # rs', h2)))"

datatype OptimisticActionRef = AddRef addr | ToggleRef string | RemoveRef string

definition todo_reducer_heap ::
  "addr \<Rightarrow> OptimisticActionRef \<Rightarrow> todo heap \<Rightarrow> addr \<times> todo heap" where
  "todo_reducer_heap state action h =
     (case action of
        AddRef t \<Rightarrow> new_list (t # lists h state) h
      | ToggleRef i \<Rightarrow>
          (case map_refs (\<lambda>t. todo_id t = i) (\<lambda>t. t\<lparr>todo_completed := \<not> todo_completed t\<rparr>)
                  (lists h state) h of
             (rs, h1) \<Rightarrow> new_list rs h1)
      | RemoveRef i \<Rightarrow> new_list (filter (\<lambda>r. todo_id (objects h r) \<noteq> i) (lists h state)) h)"

record task_action_ref =
  ref_type :: task_action_type
  ref_task :: "addr option"
  ref_id :: "string option"

definition task_reducer_heap ::
  "addr \<Rightarrow> task_action_ref \<Rightarrow> task heap \<Rightarrow> addr \<times> task heap" where
  "task_reducer_heap state action h =
     (case ref_type action of
        ToggleType \<Rightarrow>
          (case map_refs
                  (\<lambda>t. Some (task_id t) = map_option (\<lambda>r. task_id (objects h r)) (ref_task action))
                  (\<lambda>t. t\<lparr>task_completed := \<not> task_completed t\<rparr>)
                  (lists h state) h of
             (rs, h1) \<Rightarrow> new_list rs h1)
      | DeleteType \<Rightarrow>
          new_list (filter (\<lambda>r. Some (task_id (objects h r)) \<noteq> ref_id action) (lists h state)) h)"

text \<open>The reducer applied to the pending updates in turn, each to the result of the one before.\<close>

fun optimistic_heap ::
  "(addr \<Rightarrow> 'a \<Rightarrow> 'o heap \<Rightarrow> addr \<times> 'o heap) \<Rightarrow> addr \<Rightarrow> 'a list \<Rightarrow> 'o heap \<Rightarrow> addr \<times> 'o heap"
where
  "optimistic_heap reducer state [] h = (state, h)"
| "optimistic_heap reducer state (a # as) h =
     (case reducer state a h of (state', h') \<Rightarrow> optimistic_heap reducer state' as h')"

text \<open>The list of values that an array of the store stands for, and the same for actions.\<close>

definition view :: "'o heap \<Rightarrow> addr \<Rightarrow> 'o list" where
  "view h state = map (objects h) (lists h state)"

fun action_of :: "todo heap \<Rightarrow> OptimisticActionRef \<Rightarrow> OptimisticAction" where
  "action_of h (AddRef t) = Add (objects h t)"
| "action_of h (ToggleRef i) = Toggle i"
| "action_of h (RemoveRef i) = Remove i"

definition task_action_of :: "task heap \<Rightarrow> task_action_ref \<Rightarrow> task_action" where
  "task_action_of h a =
     \<lparr>action_type = ref_type a, action_task = map_option (objects h) (ref_task a),
      action_id = ref_id a\<rparr>"

text \<open>References in use are below \<open>top\<close>.\<close>

definition valid :: "'o heap \<Rightarrow> addr \<Rightarrow> bool" where
  "valid h state = (state < top h \<and> (\<forall>r \<in> set (lists h state). r < top h))"

fun valid_action :: "todo heap \<Rightarrow> OptimisticActionRef \<Rightarrow> bool" where
  "valid_action h (AddRef t) = (t < top h)"
| "valid_action h (ToggleRef i) = True"
| "valid_action h (RemoveRef i) = True"

definition valid_task_action :: "task heap \<Rightarrow> task_action_ref \<Rightarrow> bool" where
  "valid_task_action h a = (case ref_task a of None \<Rightarrow> True | Some r \<Rightarrow> r < top h)"

text \<open>Nothing that existed in \<open>h\<close> has been written to in \<open>h'\<close>.\<close>

definition unchanged :: "'o heap \<Rightarrow> 'o heap \<Rightarrow> bool" where
  "unchanged h h' =
     (top h \<le> top h' \<and> (\<forall>r < top h. objects h' r = objects h r \<and> lists h' r = lists h r))"

subsection \<open>Example lists\<close>

definition todo_a :: todo where
  "todo_a = \<lparr>todo_id = ''a'', todo_text = ''write'', todo_completed = False, todo_createdAt = 1\<rparr>"

definition todo_b :: todo where
  "todo_b = \<lparr>todo_id = ''b'', todo_text = ''read'', todo_completed = True, todo_createdAt = 2\<rparr>"

definition todo_c :: todo where
  "todo_c = \<lparr>todo_id = ''temp-3'', todo_text = ''walk'', todo_completed = False, todo_createdAt = 3\<rparr>"

text \<open>A store with the three objects and the array \<open>[a, b]\<close> at reference \<open>3\<close>.\<close>

definition todo_store :: "todo heap" where
  "todo_store =
     \<lparr>objects = (\<lambda>r. todo_a)(Suc 0 := todo_b, Suc (Suc 0) := todo_c),
      lists = (\<lambda>r. [])(Suc (Suc (Suc 0)) := [0, Suc 0]),
      top = Suc (Suc (Suc (Suc 0)))\<rparr>"

definition task_a :: task where
  "task_a = \<lparr>task_id = ''a'', task_title = ''write'', task_description = None,
     task_completed = False, task_priority = Medium, task_createdAt = 1, task_updatedAt = 1\<rparr>"

definition task_b :: task where
  "task_b = \<lparr>task_id = ''b'', task_title = ''read'', task_description = Some ''a book'',
     task_completed = True, task_priority = High, task_createdAt = 2, task_updatedAt = 2\<rparr>"

definition task_store :: "task heap" where
  "task_store =
     \<lparr>objects = (\<lambda>r. task_a)(Suc 0 := task_b),
      lists = (\<lambda>r. [])(Suc (Suc 0) := [0, Suc 0]),
      top = Suc (Suc (Suc 0))\<rparr>"

text \<open>Actions of \<^verbatim>\<open>TaskList\<close>: toggle the task at reference \<open>0\<close>, delete \<open>b\<close>, delete \<open>z\<close>.\<close>

definition toggle_first :: task_action_ref where
  "toggle_first = \<lparr>ref_type = ToggleType, ref_task = Some 0, ref_id = None\<rparr>"

definition delete_b :: task_action_ref where
  "delete_b = \<lparr>ref_type = DeleteType, ref_task = None, ref_id = Some ''b''\<rparr>"

definition delete_z :: task_action where
  "delete_z = \<lparr>action_type = DeleteType, action_task = None, action_id = Some ''z''\<rparr>"

section \<open>Creating a task (features/tasks/components/TaskInput.tsx)\<close>

text \<open>
  The action that \<^verbatim>\<open>TaskInput\<close> gives to \<^verbatim>\<open>useActionState\<close> reads the title
  from the form, rejects it when \<^verbatim>\<open>title.trim()\<close> is the empty string, and otherwise
  awaits \<^verbatim>\<open>createAction\<close> on the trimmed title and hands the task to
  \<^verbatim>\<open>onTaskCreated\<close>. A JavaScript string is a sequence of 16-bit code units.
\<close>

type_synonym jsstring = "16 word list"

text \<open>
  What \<^verbatim>\<open>String.prototype.trim\<close> removes at both ends: the white space and line
  terminator code points of ECMAScript, all of them single code units.
\<close>

definition white_space :: "16 word list" where
  "white_space =
     [0x0009, 0x000A, 0x000B, 0x000C, 0x000D, 0x0020, 0x00A0, 0x1680,
      0x2000, 0x2001, 0x2002, 0x2003, 0x2004, 0x2005, 0x2006, 0x2007, 0x2008, 0x2009, 0x200A,
      0x2028, 0x2029, 0x202F, 0x205F, 0x3000, 0xFEFF]"

definition is_white_space :: "16 word \<Rightarrow> bool" where
  "is_white_space c = (c \<in> set white_space)"

definition trim :: "jsstring \<Rightarrow> jsstring" where
  "trim s = rev (dropWhile is_white_space (rev (dropWhile is_white_space s)))"

record FormState =
  form_error :: "string option"
  form_success :: "bool option"

datatype 't settled = Resolved 't | Rejected

text \<open>
  The world around the action: the state \<open>'s\<close> that \<^verbatim>\<open>onTaskCreated\<close> updates (the
  confirmed list of the parent component) and the titles \<^verbatim>\<open>createAction\<close> has been
  called with.
\<close>

record 's world =
  parent :: 's
  created :: "jsstring list"

definition submitAction ::
  "(jsstring \<Rightarrow> 't settled) \<Rightarrow> ('t \<Rightarrow> 's \<Rightarrow> 's) \<Rightarrow> jsstring \<Rightarrow> 's world \<Rightarrow> FormState \<times> 's world"
where
  "submitAction createAction onTaskCreated title w =
     (if trim title = []
      then (\<lparr>form_error = Some ''Task title is required'', form_success = None\<rparr>, w)
      else (case createAction (trim title) of
              Resolved task \<Rightarrow>
                (\<lparr>form_error = None, form_success = Some True\<rparr>,
                 w\<lparr>created := created w @ [trim title], parent := onTaskCreated task (parent w)\<rparr>)
            | Rejected \<Rightarrow>
                (\<lparr>form_error = Some ''Failed to create task'', form_success = None\<rparr>,
                 w\<lparr>created := created w @ [trim title]\<rparr>)))"

text \<open>\<^verbatim>\<open>TasksFeature.handleTaskCreated\<close>: \<^verbatim>\<open>setTasks(prev => [task, ...prev])\<close>.\<close>

definition handleTaskCreated :: "'t \<Rightarrow> 't list \<Rightarrow> 't list" where
  "handleTaskCreated task prev = task # prev"

text \<open>A \<^verbatim>\<open>createAction\<close> that always resolves, with the title it was given.\<close>

definition echo :: "jsstring \<Rightarrow> jsstring settled" where
  "echo title = Resolved title"

section \<open>Properties of the event bus\<close>

subsection \<open>The store only grows\<close>

lemma grows_refl: "grows s s"
  by (simp add: grows_def)

lemma grows_trans:
  assumes "grows s s1" and "grows s1 s2"
  shows "grows s s2"
proof -
  have "fresh s \<le> fresh s2" using assms by (simp add: grows_def)
  moreover have "\<exists>ys. arrays s2 a = arrays s a @ ys" if "a < fresh s" for a
  proof -
    from that assms(1) obtain ys where 1: "arrays s1 a = arrays s a @ ys"
      by (auto simp: grows_def)
    from that assms(1) have "a < fresh s1" by (simp add: grows_def)
    with assms(2) obtain zs where "arrays s2 a = arrays s1 a @ zs"
      by (auto simp: grows_def)
    with 1 show ?thesis by simp
  qed
  ultimately show ?thesis by (simp add: grows_def)
qed

lemma quiet_refl: "quiet s s"
  by (simp add: quiet_def grows_refl)

lemma quiet_trans: "quiet s s1 \<Longrightarrow> quiet s1 s2 \<Longrightarrow> quiet s s2"
  by (auto simp: quiet_def intro: grows_trans)

lemma quiet_on: "quiet s (snd (on e c s))"
  by (auto simp: quiet_def grows_def on_def push_def Let_def split: property.splits)

lemma quiet_off: "quiet s (snd (off e c s))"
  by (auto simp: quiet_def grows_def off_def Let_def split: property.splits)

lemma quiet_once: "quiet s (snd (once e f s))"
  by (auto simp: quiet_def grows_def once_def on_def push_def Let_def get_events_def
           split: property.splits option.splits)

lemma quiet_clear: "quiet s (clear s)"
  by (simp add: quiet_def grows_def clear_def)

lemma exec_no_emit:
  "\<not> is_emit c \<Longrightarrow> \<exists>out s'. exec callf c s = Some (out, s') \<and> quiet s s'"
proof (cases c)
  case (On e x)
  then show ?thesis using quiet_on[of s e x] by (cases "on e x s") simp
next
  case (Off e x)
  then show ?thesis using quiet_off[of s e x] by (cases "off e x s") simp
next
  case (Once e f)
  then show ?thesis using quiet_once[of s e f] by (cases "once e f s") simp
qed (simp_all add: quiet_clear quiet_refl)

lemma run_no_emit:
  "no_emit cs \<Longrightarrow> \<exists>out s'. run callf cs s = Some (out, s') \<and> quiet s s'"
proof (induction cs arbitrary: s)
  case Nil
  then show ?case by (simp add: quiet_refl)
next
  case (Cons c cs)
  then have ne: "no_emit cs" and c: "\<not> is_emit c" by (simp_all add: no_emit_def)
  from exec_no_emit[OF c] obtain out s1 where
    x: "exec callf c s = Some (out, s1)" and q1: "quiet s s1" by blast
  show ?case
  proof (cases out)
    case Normal
    from Cons.IH[OF ne, of s1] obtain out' s' where
      "run callf cs s1 = Some (out', s')" "quiet s1 s'" by blast
    then show ?thesis using x Normal q1 by (auto intro: quiet_trans)
  next
    case Thrown
    then show ?thesis using x q1 by auto
  qed
qed


subsection \<open>Calls of callbacks that do not publish\<close>

lemma call_Fn_no_emit:
  assumes "no_emit (prog f d)"
  shows "\<exists>out s'. call prog (Suc n) (Fn f) d s = Some (out, s') \<and> called f d s s'"
proof -
  let ?s0 = "s\<lparr>calls := calls s @ [(f, d)]\<rparr>"
  from run_no_emit[where cs="prog f d" and callf="call prog n" and s="?s0", OF assms] obtain out s' where
    r: "run (call prog n) (prog f d) ?s0 = Some (out, s')" and q: "quiet ?s0 s'" by blast
  from q have "called f d s s'" by (simp add: quiet_def called_def grows_def)
  with r show ?thesis by simp
qed

lemma call_no_emit:
  assumes "no_emit (prog (fn_of c) d)"
  shows "\<exists>out s'. call prog (Suc (Suc n)) c d s = Some (out, s') \<and> called (fn_of c) d s s'"
proof (cases c)
  case (Fn f)
  then show ?thesis using call_Fn_no_emit[of prog f d "Suc n" s] assms by simp
next
  case (OnceCallback i e f)
  with assms have "no_emit (prog f d)" by simp
  from call_Fn_no_emit[where prog=prog and f=f and d=d and n=n and s=s, OF this] obtain out s1 where
    c1: "call prog (Suc n) (Fn f) d s = Some (out, s1)" and k: "called f d s s1" by blast
  show ?thesis
  proof (cases out)
    case Normal
    obtain out2 s2 where o: "off e (OnceCallback i e f) s1 = (out2, s2)"
      by (cases "off e (OnceCallback i e f) s1")
    with quiet_off[of s1 e "OnceCallback i e f"] have "quiet s1 s2" by simp
    with k have "called f d s s2"
      by (auto simp: called_def quiet_def intro: grows_trans)
    then show ?thesis using OnceCallback c1 Normal o by simp
  next
    case Thrown
    then show ?thesis using OnceCallback c1 k by simp
  qed
qed

lemma forEach_snapshot:
  assumes cf: "\<And>c s. c \<in> set orig \<Longrightarrow> \<exists>out s'. callf c d s = Some (out, s') \<and> called (fn_of c) d s s'"
  shows "a < fresh s \<Longrightarrow> arrays s a = orig @ ext \<Longrightarrow> k + m = length orig \<Longrightarrow>
    \<exists>s'. forEach callf a e d m k s = Some (Normal, s') \<and>
         grows s s' \<and> calls s' = calls s @ map (\<lambda>c. (fn_of c, d)) (drop k orig)"
proof (induction m arbitrary: k s ext)
  case 0
  then show ?case by (simp add: grows_refl)
next
  case (Suc m)
  from Suc.prems have klt: "k < length orig" by simp
  then have kin: "orig ! k \<in> set orig" by simp
  have nth: "arrays s a ! k = orig ! k" using Suc.prems klt by (simp add: nth_append)
  have klt': "k < length (arrays s a)" using Suc.prems klt by simp
  from cf[OF kin] obtain out s1 where
    c1: "callf (orig ! k) d s = Some (out, s1)"
    and k1: "called (fn_of (orig ! k)) d s s1" by blast
  define s2 where "s2 = (if out = Thrown then s1\<lparr>console := console s1 @ [e]\<rparr> else s1)"
  have g2: "grows s s2" and cl2: "calls s2 = calls s @ [(fn_of (orig ! k), d)]"
    using k1 by (auto simp: s2_def called_def grows_def)
  from g2 Suc.prems(1) have a2: "a < fresh s2" by (simp add: grows_def)
  from g2 Suc.prems(1,2) obtain ys where "arrays s2 a = orig @ (ext @ ys)"
    by (auto simp: grows_def)
  moreover have "Suc k + m = length orig" using Suc.prems(3) by simp
  ultimately obtain s' where
    f: "forEach callf a e d m (Suc k) s2 = Some (Normal, s')"
    and g: "grows s2 s'"
    and cl: "calls s' = calls s2 @ map (\<lambda>c. (fn_of c, d)) (drop (Suc k) orig)"
    using Suc.IH[OF a2] by blast
  have step: "forEach callf a e d (Suc m) k s = forEach callf a e d m (Suc k) s2"
    using klt' nth c1 by (cases out) (simp_all add: s2_def)
  have "drop k orig = orig ! k # drop (Suc k) orig"
    using klt by (simp add: Cons_nth_drop_Suc)
  then have "calls s' = calls s @ map (\<lambda>c. (fn_of c, d)) (drop k orig)"
    using cl cl2 by simp
  with step f g g2 show ?case by (auto intro: grows_trans)
qed

lemma emit_snapshot:
  assumes ev: "events s e = Some a" and a: "a < fresh s"
    and ne: "\<forall>c \<in> set (arrays s a). no_emit (prog (fn_of c) d)"
  shows "\<exists>s'. emit prog (Suc (Suc n)) e d s = Some (Normal, s') \<and>
           calls s' = calls s @ map (\<lambda>c. (fn_of c, d)) (subscribers s e)"
proof -
  have cf: "\<exists>out s'. call prog (Suc (Suc n)) c d t = Some (out, s') \<and> called (fn_of c) d t s'"
    if "c \<in> set (arrays s a)" for c t
    using call_no_emit[where prog=prog and c=c and d=d and n=n and s=t] ne that by blast
  have "\<exists>s'. forEach (call prog (Suc (Suc n))) a e d (length (arrays s a)) 0 s = Some (Normal, s') \<and>
         grows s s' \<and> calls s' = calls s @ map (\<lambda>c. (fn_of c, d)) (drop 0 (arrays s a))"
    by (rule forEach_snapshot[where orig="arrays s a" and ext="[]"]) (use cf a in simp_all)
  then show ?thesis using ev
    by (auto simp add: emit_def emit_with_def get_events_def subscribers_def simp del: call.simps)
qed


subsection \<open>Callbacks that return or throw\<close>

lemma run_throw_only:
  "set cs \<subseteq> {Throw} \<Longrightarrow> run callf cs s = Some (if Throw \<in> set cs then Thrown else Normal, s)"
  by (cases cs) auto

lemma call_opaque:
  assumes "opaque prog d c"
  shows "call prog (Suc n) c d s =
         Some (if throws prog d c then Thrown else Normal, s\<lparr>calls := calls s @ [(fn_of c, d)]\<rparr>)"
proof (cases c)
  case (Fn f)
  with assms have "set (prog f d) \<subseteq> {Throw}" by (simp add: opaque_def)
  then show ?thesis using Fn by (simp add: run_throw_only throws_def)
next
  case (OnceCallback i e f)
  with assms show ?thesis by (simp add: opaque_def)
qed

lemma forEach_opaque:
  assumes cf: "\<And>c s. c \<in> set cbs \<Longrightarrow>
     callf c d s = Some (if throws prog d c then Thrown else Normal, s\<lparr>calls := calls s @ [(fn_of c, d)]\<rparr>)"
  shows "arrays s a = cbs \<Longrightarrow> k + m = length cbs \<Longrightarrow>
    forEach callf a e d m k s =
      Some (Normal, s\<lparr>calls := calls s @ map (\<lambda>c. (fn_of c, d)) (drop k cbs),
                       console := console s @ map (\<lambda>c. e) (filter (throws prog d) (drop k cbs))\<rparr>)"
proof (induction m arbitrary: k s)
  case 0
  then show ?case by simp
next
  case (Suc m)
  from Suc.prems have klt: "k < length cbs" by simp
  then have kin: "cbs ! k \<in> set cbs" by simp
  have d: "drop k cbs = cbs ! k # drop (Suc k) cbs"
    using klt by (simp add: Cons_nth_drop_Suc)
  have k': "Suc k + m = length cbs" using Suc.prems by simp
  show ?case
  proof (cases "throws prog d (cbs ! k)")
    case True
    let ?s1 = "s\<lparr>calls := calls s @ [(fn_of (cbs ! k), d)], console := console s @ [e]\<rparr>"
    have a1: "arrays ?s1 a = cbs" using Suc.prems by simp
    have "forEach callf a e d (Suc m) k s = forEach callf a e d m (Suc k) ?s1"
      using Suc.prems klt cf[OF kin, of s] True by simp
    also note Suc.IH[OF a1 k']
    finally show ?thesis using d True by simp
  next
    case False
    let ?s1 = "s\<lparr>calls := calls s @ [(fn_of (cbs ! k), d)]\<rparr>"
    have a1: "arrays ?s1 a = cbs" using Suc.prems by simp
    have "forEach callf a e d (Suc m) k s = forEach callf a e d m (Suc k) ?s1"
      using Suc.prems klt cf[OF kin, of s] False by simp
    also note Suc.IH[OF a1 k']
    finally show ?thesis using d False by simp
  qed
qed

subsection \<open>The states the bus reaches\<close>

lemma wf_bus_allocated: "wf_bus s \<Longrightarrow> events s e = Some a \<Longrightarrow> a < fresh s"
  by (simp add: wf_bus_def)

lemma wf_bus_empty: "wf_bus empty_bus"
  by (simp add: wf_bus_def empty_bus_def)

lemma wf_bus_on: "wf_bus s \<Longrightarrow> wf_bus (snd (on e c s))"
  by (auto simp: wf_bus_def on_def push_def get_events_def Let_def less_Suc_eq
           split: option.splits if_splits)

lemma wf_bus_off: "wf_bus s \<Longrightarrow> wf_bus (snd (off e c s))"
  by (auto simp: wf_bus_def off_def get_events_def Let_def less_Suc_eq
           split: option.splits if_splits)

lemma wf_bus_once: "wf_bus s \<Longrightarrow> wf_bus (snd (once e f s))"
  by (auto simp: wf_bus_def once_def on_def push_def get_events_def Let_def less_Suc_eq
           split: option.splits if_splits)

lemma wf_bus_clear: "wf_bus s \<Longrightarrow> wf_bus (clear s)"
  by (simp add: wf_bus_def clear_def)

lemma forEach_wf:
  assumes cf: "\<And>c s out s'. wf_bus s \<Longrightarrow> callf c d s = Some (out, s') \<Longrightarrow> wf_bus s'"
  shows "wf_bus s \<Longrightarrow> forEach callf a e d m k s = Some (out, s') \<Longrightarrow> wf_bus s'"
proof (induction m arbitrary: k s)
  case 0
  then show ?case by simp
next
  case (Suc m)
  show ?case
  proof (cases "k < length (arrays s a)")
    case False
    with Suc show ?thesis by simp
  next
    case True
    show ?thesis
    proof (cases "callf (arrays s a ! k) d s")
      case None
      with Suc.prems True show ?thesis by simp
    next
      case (Some r)
      obtain o1 s1 where r: "r = (o1, s1)" by (cases r)
      with Some cf Suc.prems(1) have w1: "wf_bus s1" by blast
      then have w2: "wf_bus (s1\<lparr>console := console s1 @ [e]\<rparr>)" by (simp add: wf_bus_def)
      show ?thesis
        using Suc.prems(2) True Some r Suc.IH[OF w1] Suc.IH[OF w2] by (cases o1) simp_all
    qed
  qed
qed

lemma emit_with_wf:
  assumes cf: "\<And>c s out s'. wf_bus s \<Longrightarrow> callf c d s = Some (out, s') \<Longrightarrow> wf_bus s'"
    and w: "wf_bus s" and x: "emit_with callf e d s = Some (out, s')"
  shows "wf_bus s'"
proof (cases "get_events s e")
  case Undefined
  with w x show ?thesis by (simp add: emit_with_def)
next
  case (Array a)
  with x have "forEach callf a e d (length (arrays s a)) 0 s = Some (out, s')"
    by (simp add: emit_with_def)
  with w show ?thesis by (rule forEach_wf[where callf=callf and d=d, rotated]) (rule cf)
next
  case Inherited
  with w x show ?thesis by (simp add: emit_with_def)
qed

lemma exec_wf:
  assumes cf: "\<And>c d s out s'. wf_bus s \<Longrightarrow> callf c d s = Some (out, s') \<Longrightarrow> wf_bus s'"
    and w: "wf_bus s" and x: "exec callf c s = Some (out, s')"
  shows "wf_bus s'"
proof (cases c)
  case (On e x)
  then show ?thesis using w x wf_bus_on[of s e x] by auto
next
  case (Off e x)
  then show ?thesis using w x wf_bus_off[of s e x] by auto
next
  case (Emit e d)
  with x have "emit_with callf e d s = Some (out, s')" by simp
  with w show ?thesis by (rule emit_with_wf[where callf=callf and d=d, rotated]) (rule cf)
next
  case (Once e f)
  then show ?thesis using w x wf_bus_once[of s e f] by auto
next
  case Clear
  then show ?thesis using w x wf_bus_clear[of s] by auto
next
  case Throw
  then show ?thesis using w x by auto
qed

lemma run_wf:
  assumes cf: "\<And>c d s out s'. wf_bus s \<Longrightarrow> callf c d s = Some (out, s') \<Longrightarrow> wf_bus s'"
  shows "wf_bus s \<Longrightarrow> run callf cs s = Some (out, s') \<Longrightarrow> wf_bus s'"
proof (induction cs arbitrary: s)
  case Nil
  then show ?case by simp
next
  case (Cons c cs)
  show ?case
  proof (cases "exec callf c s")
    case None
    with Cons.prems show ?thesis by simp
  next
    case (Some r)
    obtain o1 s1 where r: "r = (o1, s1)" by (cases r)
    have w1: "wf_bus s1"
      by (rule exec_wf[where callf=callf and s=s and c=c and out=o1])
         (use cf Cons.prems(1) Some r in blast)+
    show ?thesis using Cons.prems(2) Some r w1 Cons.IH[OF w1] by (cases o1) simp_all
  qed
qed

lemma call_wf: "wf_bus s \<Longrightarrow> call prog n c d s = Some (out, s') \<Longrightarrow> wf_bus s'"
proof (induction n arbitrary: c d s out s')
  case 0
  then show ?case by simp
next
  case (Suc n)
  have cf: "\<And>c d s out s'. wf_bus s \<Longrightarrow> call prog n c d s = Some (out, s') \<Longrightarrow> wf_bus s'"
    using Suc.IH by blast
  show ?case
  proof (cases c)
    case (Fn f)
    have "wf_bus (s\<lparr>calls := calls s @ [(f, d)]\<rparr>)" using Suc.prems(1) by (simp add: wf_bus_def)
    moreover have "run (call prog n) (prog f d) (s\<lparr>calls := calls s @ [(f, d)]\<rparr>) = Some (out, s')"
      using Suc.prems(2) Fn by simp
    ultimately show ?thesis
      by (rule run_wf[where callf="call prog n", rotated]) (use cf in blast)
  next
    case (OnceCallback i e f)
    show ?thesis
    proof (cases "call prog n (Fn f) d s")
      case None
      with Suc.prems OnceCallback show ?thesis by simp
    next
      case (Some r)
      obtain o1 s1 where r: "r = (o1, s1)" by (cases r)
      have w1: "wf_bus s1" using cf Suc.prems(1) Some r by blast
      show ?thesis
        using Suc.prems(2) OnceCallback Some r w1 wf_bus_off[OF w1, of e "OnceCallback i e f"]
        by (cases o1) auto
    qed
  qed
qed

lemma emit_wf:
  assumes "wf_bus s" and "emit prog n e d s = Some (out, s')"
  shows "wf_bus s'"
proof -
  from assms(2) have "emit_with (call prog n) e d s = Some (out, s')" by (simp add: emit_def)
  with assms(1) show ?thesis
    by (rule emit_with_wf[where callf="call prog n" and d=d, rotated]) (rule call_wf)
qed

subsection \<open>Unsubscribing\<close>

lemma off_outcome: "get_events s e \<noteq> Inherited \<Longrightarrow> fst (off e c s) = Normal"
  by (cases "get_events s e") (simp_all add: off_def Let_def)

lemma off_subscribers_same:
  "get_events s e \<noteq> Inherited \<Longrightarrow>
   subscribers (snd (off e c s)) e = filter (\<lambda>x. x \<noteq> c) (subscribers s e)"
  by (cases "events s e")
     (auto simp: off_def Let_def get_events_def subscribers_def split: if_splits)

lemma off_subscribers_other:
  "wf_bus s \<Longrightarrow> e' \<noteq> e \<Longrightarrow> subscribers (snd (off e c s)) e' = subscribers s e'"
  by (cases "events s e")
     (auto simp: off_def Let_def get_events_def subscribers_def wf_bus_def
           split: if_splits option.splits)

lemma off_not_inherited:
  "wf_bus s \<Longrightarrow> get_events s e \<noteq> Inherited \<Longrightarrow> get_events (snd (off e c s)) e \<noteq> Inherited"
  by (cases "events s e")
     (auto simp: off_def Let_def get_events_def wf_bus_def split: if_splits)

lemma off_idempotent:
  assumes w: "wf_bus s" and e: "get_events s e \<noteq> Inherited"
  shows "fst (off e c s) = Normal"
    and "fst (off e c (snd (off e c s))) = Normal"
    and "subscribers (snd (off e c (snd (off e c s)))) e' = subscribers (snd (off e c s)) e'"
    and "e' \<noteq> e \<Longrightarrow> subscribers (snd (off e c s)) e' = subscribers s e'"
    and "subscribers (snd (off e c s)) e = filter (\<lambda>x. x \<noteq> c) (subscribers s e)"
proof -
  let ?s1 = "snd (off e c s)"
  have w1: "wf_bus ?s1" using w by (rule wf_bus_off)
  have e1: "get_events ?s1 e \<noteq> Inherited" using w e by (rule off_not_inherited)
  show "fst (off e c s) = Normal" using e by (rule off_outcome)
  show "fst (off e c ?s1) = Normal" using e1 by (rule off_outcome)
  show "subscribers (snd (off e c s)) e = filter (\<lambda>x. x \<noteq> c) (subscribers s e)"
    using e by (rule off_subscribers_same)
  show "subscribers (snd (off e c ?s1)) e' = subscribers ?s1 e'"
  proof (cases "e' = e")
    case True
    then show ?thesis
      using off_subscribers_same[OF e1, of c] off_subscribers_same[OF e, of c] by simp
  next
    case False
    then show ?thesis using off_subscribers_other[OF w1] by simp
  qed
  show "e' \<noteq> e \<Longrightarrow> subscribers (snd (off e c s)) e' = subscribers s e'"
    using off_subscribers_other[OF w] by simp
qed

subsection \<open>Names that Object.prototype defines\<close>

lemma inherited_name_throws:
  assumes "events s e = None" and "e \<in> set object_prototype_keys"
  shows "on e c s = (Thrown, s)" and "off e c s = (Thrown, s)"
    and "emit prog n e d s = Some (Thrown, s)"
  using assms by (simp_all add: on_def off_def emit_def emit_with_def get_events_def)

lemma other_name_never_throws:
  assumes "e \<notin> set object_prototype_keys"
  shows "fst (on e c s) = Normal" and "fst (off e c s) = Normal"
  using assms
  by (cases "events s e"; simp add: on_def off_def get_events_def Let_def)+

subsection \<open>Publishing to callbacks that return or throw\<close>

text \<open>
  Claim C1. Let callbacks be registered for the event \<open>e\<close>, each an application function
  that returns or throws without calling the bus. Then \<^verbatim>\<open>emit(e, d)\<close> returns
  normally, having called every registered callback exactly once, in the order of
  registration, each with the very value \<open>d\<close>. An exception of a callback is caught where
  it is raised (one report on the console for each callback that throws), the callbacks
  after it are still called, and the registrations are left as they were.
\<close>

theorem emit_isolates_subscribers:
  assumes "events s e = Some a"
    and "\<forall>c \<in> set (subscribers s e). opaque prog d c"
  shows "emit prog (Suc n) e d s =
     Some (Normal, s\<lparr>calls := calls s @ map (\<lambda>c. (fn_of c, d)) (subscribers s e),
                      console := console s @ map (\<lambda>c. e) (filter (throws prog d) (subscribers s e))\<rparr>)"
proof -
  have sub: "subscribers s e = arrays s a" using assms(1) by (simp add: subscribers_def)
  have cf: "call prog (Suc n) c d t =
      Some (if throws prog d c then Thrown else Normal, t\<lparr>calls := calls t @ [(fn_of c, d)]\<rparr>)"
    if "c \<in> set (arrays s a)" for c t
    using that assms(2) sub call_opaque[where prog=prog and d=d and c=c] by simp
  have "forEach (call prog (Suc n)) a e d (length (arrays s a)) 0 s =
      Some (Normal, s\<lparr>calls := calls s @ map (\<lambda>c. (fn_of c, d)) (drop 0 (arrays s a)),
                       console := console s @ map (\<lambda>c. e) (filter (throws prog d) (drop 0 (arrays s a)))\<rparr>)"
    by (rule forEach_opaque[where cbs="arrays s a"]) (use cf in simp_all)
  then show ?thesis using assms(1) sub
    by (simp add: emit_def emit_with_def get_events_def del: call.simps)
qed

theorem emit_isolates_subscribers_witness:
  "events two_subscribers ''task:created'' = Some 0 \<and>
   list_all (opaque first_throws 7) (subscribers two_subscribers ''task:created'') \<and>
   map_option (\<lambda>(out, s). (out, calls s, console s, subscribers s ''task:created''))
     (emit first_throws (Suc 0) ''task:created'' 7 two_subscribers) =
     Some (Normal, [(1, 7), (2, 7)], [''task:created''], [Fn 1, Fn 2])"
  using emit_isolates_subscribers[of two_subscribers "''task:created''" 0 first_throws 7 0]
  by (simp add: opaque_def first_throws_def throws_def subscribers_def list_all_iff
           two_subscribers_def on_def get_events_def empty_bus_def push_def
           object_prototype_keys_def)

lemma emit_calls_registered:
  assumes "events s e = Some a" and "a < fresh s"
    and "\<forall>c \<in> set (subscribers s e). no_emit (prog (fn_of c) d)"
  shows "outcome_and_calls (emit prog (Suc (Suc n)) e d s) =
         Some (Normal, calls s @ map (\<lambda>c. (fn_of c, d)) (subscribers s e))"
proof -
  from assms have "\<forall>c \<in> set (arrays s a). no_emit (prog (fn_of c) d)"
    by (simp add: subscribers_def)
  from emit_snapshot[where prog=prog and d=d and n=n, OF assms(1,2) this]
  obtain s' where "emit prog (Suc (Suc n)) e d s = Some (Normal, s')"
    and "calls s' = calls s @ map (\<lambda>c. (fn_of c, d)) (subscribers s e)" by blast
  then show ?thesis by (simp add: outcome_and_calls_def del: call.simps)
qed

subsection \<open>Publishing while callbacks unsubscribe\<close>

text \<open>
  Claim C4. Let the callbacks registered for \<open>e\<close> subscribe, unsubscribe (themselves or
  others, under any name), clear the bus or throw, but not publish. Then
  \<^verbatim>\<open>emit(e, d)\<close> completes and calls exactly the callbacks that were registered for
  \<open>e\<close> when it started, each once and in their order: none is skipped and none is called
  twice, whatever was unsubscribed meanwhile. (\<^verbatim>\<open>off\<close> stores a new array and
  \<^verbatim>\<open>push\<close> only appends, so \<^verbatim>\<open>forEach\<close> reads the array as it was.)
\<close>

theorem emit_completes_over_snapshot:
  assumes "events s e = Some a" and "a < fresh s"
    and "\<forall>c \<in> set (subscribers s e). no_emit (prog (fn_of c) d)"
  shows "outcome_and_calls (emit prog (Suc (Suc n)) e d s) =
         Some (Normal, calls s @ map (\<lambda>c. (fn_of c, d)) (subscribers s e))"
  using assms by (rule emit_calls_registered)

theorem emit_completes_over_snapshot_witness:
  "events three_subscribers ''task:updated'' = Some 0 \<and> 0 < fresh three_subscribers \<and>
   list_all (\<lambda>c. no_emit (unsubscribing (fn_of c) 5))
     (subscribers three_subscribers ''task:updated'') \<and>
   outcome_and_calls (emit unsubscribing (Suc (Suc 0)) ''task:updated'' 5 three_subscribers) =
     Some (Normal, [(1, 5), (2, 5), (3, 5)]) \<and>
   map_option (\<lambda>(out, s). subscribers s ''task:updated'')
     (emit unsubscribing (Suc (Suc 0)) ''task:updated'' 5 three_subscribers) = Some [Fn 2, Fn 4]"
  using emit_completes_over_snapshot[of three_subscribers "''task:updated''" 0 unsubscribing 5 0]
  by (simp add: no_emit_def unsubscribing_def subscribers_def three_subscribers_def list_all_iff
           on_def off_def get_events_def empty_bus_def push_def object_prototype_keys_def
           emit_def emit_with_def outcome_and_calls_def Let_def)

subsection \<open>Registration under the empty name\<close>

text \<open>
  Claim C3, as stated: \<^verbatim>\<open>on\<close> with the empty string as event name registers
  nothing. It fails on the bus that has no subscriber yet: afterwards the callback is
  registered under the empty name.
\<close>

theorem on_empty_name_counterexample:
  "subscribers (snd (on '''' (Fn 0) (empty_bus :: nat bus))) '''' \<noteq> []"
  by (simp add: on_def get_events_def empty_bus_def push_def object_prototype_keys_def
        subscribers_def)

text \<open>
  Claim C3, amended. \<^verbatim>\<open>on\<close> has no guard for the empty name: with the empty string
  as event name it does not throw, and it registers the callback under the empty name as
  it does under any other name, after the callbacks already registered there.
\<close>

theorem on_empty_name_registers:
  "fst (on '''' c s) = Normal \<and>
   subscribers (snd (on '''' c s)) '''' = subscribers s '''' @ [c]"
  by (cases "events s ''''")
     (simp_all add: on_def get_events_def push_def object_prototype_keys_def
        subscribers_def Let_def)

subsection \<open>A callback registered once that publishes again\<close>

lemma once_callback_is_removed_after_returning:
  "map_option (\<lambda>(out, s). (out, calls s, subscribers s ''ping''))
     (emit silent (Suc (Suc 0)) ''ping'' 0 once_registered) = Some (Normal, [(0, 0)], [])"
  by (simp add: once_registered_def silent_def once_def on_def off_def
        get_events_def empty_bus_def push_def object_prototype_keys_def
        emit_def emit_with_def subscribers_def Let_def)

lemma once_callback_that_throws_stays_registered:
  "map_option (\<lambda>(out, s). (out, calls s, console s, subscribers s ''ping''))
     (emit always_throws (Suc (Suc 0)) ''ping'' 0 once_registered) =
     Some (Normal, [(0, 0)], [''ping''], [OnceCallback 0 ''ping'' 0])"
  by (simp add: once_registered_def always_throws_def once_def on_def off_def
        get_events_def empty_bus_def push_def object_prototype_keys_def
        emit_def emit_with_def subscribers_def Let_def)

text \<open>
  Claim C2. \<^verbatim>\<open>onceCallback\<close> unsubscribes itself only after the callback has
  returned, so while the callback runs it is still registered. Here the callback
  \<open>0\<close>, registered with \<^verbatim>\<open>once\<close> for \<open>ping\<close>, publishes \<open>ping\<close> again when it is
  called with \<open>0\<close>: the one call \<^verbatim>\<open>emit('ping', 0)\<close> calls it twice, the second time
  from the publish it made itself.
\<close>

theorem once_reentrant_publish_calls_twice:
  "outcome_and_calls (emit republishing (Suc (Suc (Suc (Suc 0)))) ''ping'' 0 once_registered) =
     Some (Normal, [(0, 0), (0, 1)])"
  by (simp add: once_registered_def republishing_def once_def on_def off_def
        get_events_def empty_bus_def push_def object_prototype_keys_def
        emit_def emit_with_def outcome_and_calls_def Let_def)

subsection \<open>Unsubscribing under a name that Object.prototype defines\<close>

text \<open>
  Claim C5. \<^verbatim>\<open>off\<close> with a name under which nothing was ever registered must be
  a no-op. For the name \<open>toString\<close> the guard \<^verbatim>\<open>!this.events[event]\<close> finds the
  function inherited from \<^verbatim>\<open>Object.prototype\<close>, so \<^verbatim>\<open>off\<close> goes on and calls
  \<^verbatim>\<open>filter\<close> on it: a TypeError reaches the caller.
\<close>

theorem off_inherited_name_throws:
  "fst (off ''toString'' (Fn 0) (empty_bus :: nat bus)) = Thrown"
  by (simp add: off_def get_events_def empty_bus_def object_prototype_keys_def)

subsection \<open>A callback registered more than once\<close>

text \<open>
  Claim C10. Let callbacks be registered for \<open>e\<close>, the callback \<open>c\<close> any number of
  times among them. One call of \<^verbatim>\<open>off(e, c)\<close>, which is also what the function
  returned by \<^verbatim>\<open>on(e, c)\<close> does, returns normally and removes every occurrence of \<open>c\<close>:
  the subscribers of \<open>e\<close> are then the other callbacks, in their order, and the next
  \<^verbatim>\<open>emit(e, d)\<close> calls these and no registration of \<open>c\<close>.
\<close>

theorem off_removes_every_occurrence:
  assumes "events s e = Some a" and "a < fresh s" and "e \<notin> set object_prototype_keys"
    and "\<forall>x \<in> set (subscribers s e). no_emit (prog (fn_of x) d)"
  shows "call_handle (on_handle e c) s = off e c s \<and>
         fst (off e c s) = Normal \<and>
         c \<notin> set (subscribers (snd (off e c s)) e) \<and>
         subscribers (snd (off e c s)) e = filter (\<lambda>x. x \<noteq> c) (subscribers s e) \<and>
         outcome_and_calls (emit prog (Suc (Suc n)) e d (snd (off e c s))) =
           Some (Normal, calls s @ map (\<lambda>x. (fn_of x, d)) (filter (\<lambda>x. x \<noteq> c) (subscribers s e)))"
proof -
  let ?s1 = "snd (off e c s)"
  let ?rest = "filter (\<lambda>x. x \<noteq> c) (subscribers s e)"
  have ni: "get_events s e \<noteq> Inherited" using assms(1) by (simp add: get_events_def)
  have sub: "subscribers ?s1 e = ?rest" using ni by (rule off_subscribers_same)
  have cl: "calls ?s1 = calls s"
    using quiet_off[of s e c] by (simp add: quiet_def)
  have "outcome_and_calls (emit prog (Suc (Suc n)) e d ?s1) =
          Some (Normal, calls ?s1 @ map (\<lambda>x. (fn_of x, d)) (subscribers ?s1 e))"
  proof (cases "?rest = []")
    case True
    then have "events ?s1 e = None"
      using assms(1) by (simp add: off_def get_events_def Let_def subscribers_def)
    then show ?thesis using assms(3)
      by (simp add: emit_def emit_with_def get_events_def outcome_and_calls_def
            subscribers_def del: call.simps)
  next
    case False
    then have ev: "events ?s1 e = Some (fresh s)" and fr: "fresh s < fresh ?s1"
      using assms(1) by (simp_all add: off_def get_events_def Let_def subscribers_def)
    have "\<forall>x \<in> set (subscribers ?s1 e). no_emit (prog (fn_of x) d)"
      using assms(4) sub by simp
    with ev fr show ?thesis
      using emit_calls_registered[where prog=prog and d=d and n=n and s="?s1"] by blast
  qed
  then show ?thesis using sub cl off_outcome[OF ni, of c] by (simp add: on_handle_def)
qed

theorem off_removes_every_occurrence_witness:
  "events registered_twice ''theme:changed'' = Some 0 \<and> 0 < fresh registered_twice \<and>
   ''theme:changed'' \<notin> set object_prototype_keys \<and>
   list_all (\<lambda>x. no_emit (silent (fn_of x) 9)) (subscribers registered_twice ''theme:changed'') \<and>
   subscribers registered_twice ''theme:changed'' = [Fn 1, Fn 2, Fn 1] \<and>
   subscribers (snd (off ''theme:changed'' (Fn 1) registered_twice)) ''theme:changed'' = [Fn 2] \<and>
   outcome_and_calls (emit silent (Suc (Suc 0)) ''theme:changed'' 9
       (snd (call_handle (on_handle ''theme:changed'' (Fn 1)) registered_twice))) =
     Some (Normal, [(2, 9)])"
  using off_removes_every_occurrence[of registered_twice "''theme:changed''" 0 silent 9 "Fn 1" 0]
  by (simp add: no_emit_def silent_def subscribers_def registered_twice_def on_handle_def list_all_iff
           on_def off_def get_events_def empty_bus_def push_def object_prototype_keys_def
           emit_def emit_with_def outcome_and_calls_def Let_def)

section \<open>Properties of the optimistic overlay\<close>

subsection \<open>The reducers on the store allocate and never write\<close>

lemma unchanged_refl: "unchanged h h"
  by (simp add: unchanged_def)

lemma unchanged_trans: "unchanged h h1 \<Longrightarrow> unchanged h1 h2 \<Longrightarrow> unchanged h h2"
  by (auto simp: unchanged_def)

lemma unchanged_view: "unchanged h h' \<Longrightarrow> valid h state \<Longrightarrow> view h' state = view h state"
  by (auto simp: unchanged_def valid_def view_def)

lemma unchanged_valid: "unchanged h h' \<Longrightarrow> valid h state \<Longrightarrow> valid h' state"
  by (auto simp: unchanged_def valid_def)

lemma new_list_spec:
  assumes "new_list rs h = (state', h')" and "\<forall>r \<in> set rs. r < top h"
  shows "unchanged h h'" and "valid h' state'" and "view h' state' = map (objects h) rs"
  using assms by (auto simp: new_list_def unchanged_def valid_def view_def less_Suc_eq)

lemma map_refs_spec:
  "map_refs p upd rs h = (rs', h') \<Longrightarrow> \<forall>r \<in> set rs. r < top h \<Longrightarrow>
   unchanged h h' \<and> (\<forall>r \<in> set rs'. r < top h') \<and>
   map (objects h') rs' = map (\<lambda>t. if p t then upd t else t) (map (objects h) rs)"
proof (induction rs arbitrary: h rs' h')
  case Nil
  then show ?case by (simp add: unchanged_refl)
next
  case (Cons r rs)
  show ?case
  proof (cases "p (objects h r)")
    case True
    obtain r1 h1 where n: "new_object (upd (objects h r)) h = (r1, h1)"
      by (cases "new_object (upd (objects h r)) h")
    obtain rs2 h2 where m: "map_refs p upd rs h1 = (rs2, h2)"
      by (cases "map_refs p upd rs h1")
    from n have u1: "unchanged h h1" and r1: "r1 = top h" and t1: "top h1 = Suc (top h)"
      and o1: "objects h1 r1 = upd (objects h r)"
      by (auto simp: new_object_def unchanged_def)
    have b1: "\<forall>x \<in> set rs. x < top h1" using Cons.prems(2) t1 by auto
    from Cons.IH[OF m b1] have u2: "unchanged h1 h2" and b2: "\<forall>x \<in> set rs2. x < top h2"
      and v2: "map (objects h2) rs2 = map (\<lambda>t. if p t then upd t else t) (map (objects h1) rs)"
      by simp_all
    have same: "map (objects h1) rs = map (objects h) rs"
      using u1 Cons.prems(2) by (auto simp: unchanged_def)
    have "objects h2 r1 = objects h1 r1" and "r1 < top h2"
      using u2 r1 t1 by (auto simp: unchanged_def)
    moreover have "rs' = r1 # rs2" and "h' = h2" using Cons.prems(1) True n m by simp_all
    ultimately show ?thesis
      using True o1 v2 same b2 u1 u2 by (auto intro: unchanged_trans)
  next
    case False
    obtain rs2 h2 where m: "map_refs p upd rs h = (rs2, h2)"
      by (cases "map_refs p upd rs h")
    have b1: "\<forall>x \<in> set rs. x < top h" using Cons.prems(2) by auto
    from Cons.IH[OF m b1] have u2: "unchanged h h2" and b2: "\<forall>x \<in> set rs2. x < top h2"
      and v2: "map (objects h2) rs2 = map (\<lambda>t. if p t then upd t else t) (map (objects h) rs)"
      by simp_all
    have "objects h2 r = objects h r" and "r < top h2"
      using u2 Cons.prems(2) by (auto simp: unchanged_def)
    moreover have "rs' = r # rs2" and "h' = h2" using Cons.prems(1) False m by simp_all
    ultimately show ?thesis using False v2 b2 u2 by auto
  qed
qed

lemma todo_reducer_heap_spec:
  assumes r: "todo_reducer_heap state a h = (state', h')"
    and v: "valid h state" and va: "valid_action h a"
  shows "unchanged h h' \<and> valid h' state' \<and>
         view h' state' = todo_reducer (view h state) (action_of h a)"
proof (cases a)
  case (AddRef t)
  with r have n: "new_list (t # lists h state) h = (state', h')"
    by (simp add: todo_reducer_heap_def)
  have "\<forall>r \<in> set (t # lists h state). r < top h" using v va AddRef by (simp add: valid_def)
  from new_list_spec[OF n this] show ?thesis using AddRef by (simp add: view_def)
next
  case (ToggleRef i)
  let ?p = "\<lambda>t. todo_id t = i" and ?u = "\<lambda>t. t\<lparr>todo_completed := \<not> todo_completed t\<rparr>"
  obtain rs h1 where m: "map_refs ?p ?u (lists h state) h = (rs, h1)"
    by (cases "map_refs ?p ?u (lists h state) h")
  with r ToggleRef have n: "new_list rs h1 = (state', h')"
    by (simp add: todo_reducer_heap_def)
  have "\<forall>r \<in> set (lists h state). r < top h" using v by (simp add: valid_def)
  from map_refs_spec[OF m this] have u1: "unchanged h h1" and b: "\<forall>r \<in> set rs. r < top h1"
    and e: "map (objects h1) rs = map (\<lambda>t. if ?p t then ?u t else t) (view h state)"
    by (simp_all add: view_def)
  from new_list_spec[OF n b] u1 e show ?thesis
    using ToggleRef by (auto intro: unchanged_trans)
next
  case (RemoveRef i)
  let ?rs = "filter (\<lambda>r. todo_id (objects h r) \<noteq> i) (lists h state)"
  from r RemoveRef have n: "new_list ?rs h = (state', h')"
    by (simp add: todo_reducer_heap_def)
  have "\<forall>r \<in> set ?rs. r < top h" using v by (simp add: valid_def)
  from new_list_spec[OF n this] show ?thesis
    using RemoveRef by (simp add: view_def filter_map comp_def)
qed

lemma task_reducer_heap_spec:
  assumes r: "task_reducer_heap state a h = (state', h')"
    and v: "valid h state"
  shows "unchanged h h' \<and> valid h' state' \<and>
         view h' state' = task_reducer (view h state) (task_action_of h a)"
proof (cases "ref_type a")
  case ToggleType
  let ?p = "\<lambda>t. Some (task_id t) = map_option (\<lambda>r. task_id (objects h r)) (ref_task a)"
  let ?u = "\<lambda>t. t\<lparr>task_completed := \<not> task_completed t\<rparr>"
  obtain rs h1 where m: "map_refs ?p ?u (lists h state) h = (rs, h1)"
    by (cases "map_refs ?p ?u (lists h state) h")
  with r ToggleType have n: "new_list rs h1 = (state', h')"
    by (simp add: task_reducer_heap_def)
  have "\<forall>r \<in> set (lists h state). r < top h" using v by (simp add: valid_def)
  from map_refs_spec[OF m this] have u1: "unchanged h h1" and b: "\<forall>r \<in> set rs. r < top h1"
    and e: "map (objects h1) rs = map (\<lambda>t. if ?p t then ?u t else t) (view h state)"
    by (simp_all add: view_def)
  from new_list_spec[OF n b] u1 e show ?thesis
    using ToggleType
    by (auto simp: task_reducer_def task_action_of_def option.map_comp comp_def
             intro: unchanged_trans)
next
  case DeleteType
  let ?rs = "filter (\<lambda>r. Some (task_id (objects h r)) \<noteq> ref_id a) (lists h state)"
  from r DeleteType have n: "new_list ?rs h = (state', h')"
    by (simp add: task_reducer_heap_def)
  have "\<forall>r \<in> set ?rs. r < top h" using v by (simp add: valid_def)
  from new_list_spec[OF n this] show ?thesis
    using DeleteType
    by (simp add: view_def filter_map comp_def task_reducer_def task_action_of_def)
qed

lemma valid_action_mono:
  "unchanged h h' \<Longrightarrow> valid_action h a \<Longrightarrow> valid_action h' a \<and> action_of h' a = action_of h a"
  by (cases a) (auto simp: unchanged_def)

lemma valid_task_action_mono:
  "unchanged h h' \<Longrightarrow> valid_task_action h a \<Longrightarrow>
   valid_task_action h' a \<and> task_action_of h' a = task_action_of h a"
  by (cases "ref_task a") (auto simp: unchanged_def valid_task_action_def task_action_of_def)

lemma optimistic_heap_spec:
  assumes step: "\<And>state a h state' h'.
      reducer state a h = (state', h') \<Longrightarrow> valid h state \<Longrightarrow> va h a \<Longrightarrow>
      unchanged h h' \<and> valid h' state' \<and> view h' state' = pure (view h state) (act h a)"
    and mono: "\<And>h h' a. unchanged h h' \<Longrightarrow> va h a \<Longrightarrow> va h' a \<and> act h' a = act h a"
  shows "optimistic_heap reducer state as h = (state', h') \<Longrightarrow> valid h state \<Longrightarrow>
         \<forall>a \<in> set as. va h a \<Longrightarrow>
         unchanged h h' \<and> valid h' state' \<and>
         view h' state' = foldl pure (view h state) (map (act h) as)"
proof (induction as arbitrary: state h)
  case Nil
  then show ?case by (simp add: unchanged_refl)
next
  case (Cons a as)
  obtain s1 h1 where r: "reducer state a h = (s1, h1)" by (cases "reducer state a h")
  from Cons.prems(3) have va: "va h a" by simp
  from step[OF r Cons.prems(2) va] have u1: "unchanged h h1" and v1: "valid h1 s1"
    and e1: "view h1 s1 = pure (view h state) (act h a)" by simp_all
  have rest: "optimistic_heap reducer s1 as h1 = (state', h')" using Cons.prems(1) r by simp
  have vas: "\<forall>x \<in> set as. va h1 x" using Cons.prems(3) mono[OF u1] by simp
  have abs: "map (act h1) as = map (act h) as" using Cons.prems(3) mono[OF u1] by simp
  from Cons.IH[OF rest v1 vas] abs e1 u1 show ?case by (auto intro: unchanged_trans)
qed

lemma optimistic_todos_heap:
  assumes "optimistic_heap todo_reducer_heap todos pending h = (out, h')"
    and "valid h todos" and "\<forall>a \<in> set pending. valid_action h a"
  shows "unchanged h h' \<and> valid h' out \<and>
         view h' out = optimisticTodos (view h todos) (map (action_of h) pending)"
  unfolding optimisticTodos_def
  by (rule optimistic_heap_spec[where reducer=todo_reducer_heap and va=valid_action, OF _ _ assms])
     (use todo_reducer_heap_spec valid_action_mono in blast)+

lemma optimistic_tasks_heap:
  assumes "optimistic_heap task_reducer_heap tasks pending h = (out, h')"
    and "valid h tasks" and "\<forall>a \<in> set pending. valid_task_action h a"
  shows "unchanged h h' \<and> valid h' out \<and>
         view h' out = optimisticTasks (view h tasks) (map (task_action_of h) pending)"
  unfolding optimisticTasks_def
  by (rule optimistic_heap_spec[where reducer=task_reducer_heap and va=valid_task_action, OF _ _ assms])
     (use task_reducer_heap_spec valid_task_action_mono in blast)+

lemma twice_same:
  assumes first: "unchanged h h1 \<and> valid h1 out1 \<and> view h1 out1 = f (view h state) (map (act h) as)"
    and second: "unchanged h1 h2 \<and> valid h2 out2 \<and> view h2 out2 = f (view h1 state) (map (act h1) as)"
    and v: "valid h state" and same: "map (act h1) as = map (act h) as"
  shows "view h2 out2 = view h2 out1 \<and> unchanged h h2 \<and> view h2 state = view h state"
proof -
  from first have u1: "unchanged h h1" and v1: "valid h1 out1"
    and e1: "view h1 out1 = f (view h state) (map (act h) as)" by simp_all
  from second have u2: "unchanged h1 h2"
    and e2: "view h2 out2 = f (view h1 state) (map (act h1) as)" by simp_all
  have u: "unchanged h h2" using u1 u2 by (rule unchanged_trans)
  have a: "view h1 state = view h state" using u1 v by (rule unchanged_view)
  have b: "view h2 out1 = view h1 out1" using u2 v1 by (rule unchanged_view)
  have c: "view h2 state = view h state" using u v by (rule unchanged_view)
  show ?thesis using a b c e1 e2 same u by simp
qed

lemma overlay_equal_arguments_equal_results:
  assumes "valid h todos" and "\<forall>a \<in> set pending. valid_action h a"
    and "valid h' todos'" and "\<forall>a \<in> set pending'. valid_action h' a"
    and "view h todos = view h' todos'"
    and "map (action_of h) pending = map (action_of h') pending'"
    and "optimistic_heap todo_reducer_heap todos pending h = (out, h1)"
    and "optimistic_heap todo_reducer_heap todos' pending' h' = (out', h1')"
  shows "view h1 out = view h1' out'"
  using optimistic_todos_heap[OF assms(7) assms(1,2)]
    optimistic_todos_heap[OF assms(8) assms(3,4)] assms(5,6)
  by simp

subsection \<open>The overlay is a function of its arguments and writes to neither\<close>

text \<open>
  Claim C6. Let the reducer of \<^verbatim>\<open>TodoListEnhanced\<close> be applied to the pending updates
  on a store that holds the confirmed list, and then a second time, to the same confirmed
  list and the same updates, on the store that the first run left. The list that the first
  run returns is the function \<open>optimisticTodos\<close> of the confirmed list and the updates as
  values, so equal arguments give equal results on any store; the second run returns an
  equal list; and after both runs the confirmed list and every object that existed before
  are what they were. The same holds for the reducer of \<^verbatim>\<open>TaskList\<close>.
\<close>

theorem overlay_pure:
  assumes "valid h todos" and "\<forall>a \<in> set pending. valid_action h a"
    and "valid g tasks" and "\<forall>a \<in> set updates. valid_task_action g a"
  shows "(case optimistic_heap todo_reducer_heap todos pending h of (out1, h1) \<Rightarrow>
          case optimistic_heap todo_reducer_heap todos pending h1 of (out2, h2) \<Rightarrow>
            view h1 out1 = optimisticTodos (view h todos) (map (action_of h) pending) \<and>
            view h2 out2 = view h2 out1 \<and> view h2 out1 = view h1 out1 \<and>
            unchanged h h2 \<and> view h2 todos = view h todos) \<and>
         (case optimistic_heap task_reducer_heap tasks updates g of (res1, g1) \<Rightarrow>
          case optimistic_heap task_reducer_heap tasks updates g1 of (res2, g2) \<Rightarrow>
            view g1 res1 = optimisticTasks (view g tasks) (map (task_action_of g) updates) \<and>
            view g2 res2 = view g2 res1 \<and> view g2 res1 = view g1 res1 \<and>
            unchanged g g2 \<and> view g2 tasks = view g tasks)"
proof -
  obtain out1 h1 where r1: "optimistic_heap todo_reducer_heap todos pending h = (out1, h1)"
    by (cases "optimistic_heap todo_reducer_heap todos pending h")
  obtain out2 h2 where r2: "optimistic_heap todo_reducer_heap todos pending h1 = (out2, h2)"
    by (cases "optimistic_heap todo_reducer_heap todos pending h1")
  note f1 = optimistic_todos_heap[OF r1 assms(1,2)]
  then have u1: "unchanged h h1" and vo: "valid h1 out1" by simp_all
  have v1: "valid h1 todos" using u1 assms(1) by (rule unchanged_valid)
  have a1: "\<forall>a \<in> set pending. valid_action h1 a"
    and same: "map (action_of h1) pending = map (action_of h) pending"
    using valid_action_mono[OF u1] assms(2) by simp_all
  note f2 = optimistic_todos_heap[OF r2 v1 a1]
  then have u2: "unchanged h1 h2" by simp
  have "view h2 out1 = view h1 out1" using u2 vo by (rule unchanged_view)
  with twice_same[where f=optimisticTodos and act=action_of, OF f1 f2 assms(1) same] f1
  have todo_part: "view h1 out1 = optimisticTodos (view h todos) (map (action_of h) pending) \<and>
      view h2 out2 = view h2 out1 \<and> view h2 out1 = view h1 out1 \<and>
      unchanged h h2 \<and> view h2 todos = view h todos" by simp
  obtain res1 g1 where s1: "optimistic_heap task_reducer_heap tasks updates g = (res1, g1)"
    by (cases "optimistic_heap task_reducer_heap tasks updates g")
  obtain res2 g2 where s2: "optimistic_heap task_reducer_heap tasks updates g1 = (res2, g2)"
    by (cases "optimistic_heap task_reducer_heap tasks updates g1")
  note k1 = optimistic_tasks_heap[OF s1 assms(3,4)]
  then have w1: "unchanged g g1" and wo: "valid g1 res1" by simp_all
  have x1: "valid g1 tasks" using w1 assms(3) by (rule unchanged_valid)
  have b1: "\<forall>a \<in> set updates. valid_task_action g1 a"
    and same': "map (task_action_of g1) updates = map (task_action_of g) updates"
    using valid_task_action_mono[OF w1] assms(4) by simp_all
  note k2 = optimistic_tasks_heap[OF s2 x1 b1]
  then have w2: "unchanged g1 g2" by simp
  have "view g2 res1 = view g1 res1" using w2 wo by (rule unchanged_view)
  with twice_same[where f=optimisticTasks and act=task_action_of, OF k1 k2 assms(3) same'] k1
  have task_part: "view g1 res1 = optimisticTasks (view g tasks) (map (task_action_of g) updates) \<and>
      view g2 res2 = view g2 res1 \<and> view g2 res1 = view g1 res1 \<and>
      unchanged g g2 \<and> view g2 tasks = view g tasks" by simp
  show ?thesis using todo_part task_part r1 r2 s1 s2 by simp
qed

theorem overlay_pure_witness:
  "valid todo_store 3 \<and>
   list_all (valid_action todo_store) [AddRef 2, ToggleRef ''a'', RemoveRef ''b''] \<and>
   valid task_store 2 \<and>
   list_all (valid_task_action task_store) [toggle_first, delete_b] \<and>
   (case optimistic_heap todo_reducer_heap 3 [AddRef 2, ToggleRef ''a'', RemoveRef ''b''] todo_store
    of (out1, h1) \<Rightarrow>
      view h1 out1 = [todo_c, todo_a\<lparr>todo_completed := True\<rparr>] \<and> view h1 3 = [todo_a, todo_b]) \<and>
   (case optimistic_heap task_reducer_heap 2 [toggle_first, delete_b] task_store
    of (res1, g1) \<Rightarrow>
      view g1 res1 = [task_a\<lparr>task_completed := True\<rparr>] \<and> view g1 2 = [task_a, task_b])"
  using overlay_pure[of todo_store 3 "[AddRef 2, ToggleRef ''a'', RemoveRef ''b'']"
           task_store 2 "[toggle_first, delete_b]"]
  by (simp add: valid_def valid_task_action_def todo_store_def task_store_def
        toggle_first_def delete_b_def todo_reducer_heap_def task_reducer_heap_def
        new_list_def new_object_def view_def todo_a_def todo_b_def todo_c_def
        task_a_def task_b_def numeral_2_eq_2 numeral_3_eq_3)

subsection \<open>An update whose id matches nothing\<close>

lemma todo_reducer_ids:
  "todo_id ` set (foldl todo_reducer state as) \<subseteq> todo_id ` set state \<union> todo_id ` set (adds as)"
proof (induction as arbitrary: state)
  case Nil
  then show ?case by simp
next
  case (Cons a as)
  show ?case
  proof (cases a)
    case (Add t)
    then show ?thesis using Cons.IH[of "t # state"] by auto
  next
    case (Toggle i)
    have "map todo_id (todo_reducer state (Toggle i)) = map todo_id state"
      by (induction state) auto
    then have "set (map todo_id (todo_reducer state (Toggle i))) = set (map todo_id state)"
      by (rule arg_cong)
    then have "todo_id ` set (todo_reducer state (Toggle i)) = todo_id ` set state"
      by (simp only: set_map)
    then show ?thesis using Toggle Cons.IH[of "todo_reducer state (Toggle i)"] by auto
  next
    case (Remove i)
    have "todo_id ` set (todo_reducer state (Remove i)) \<subseteq> todo_id ` set state" by auto
    then show ?thesis using Remove Cons.IH[of "todo_reducer state (Remove i)"] by auto
  qed
qed

lemma todo_reducer_no_match:
  assumes "i \<notin> todo_id ` set state" and "a = Toggle i \<or> a = Remove i"
  shows "todo_reducer state a = state"
proof -
  from assms(1) have ne: "\<forall>t \<in> set state. todo_id t \<noteq> i" by auto
  then have "todo_reducer state (Toggle i) = state" by (induction state) auto
  moreover from ne have "todo_reducer state (Remove i) = state" by (simp add: filter_id_conv)
  ultimately show ?thesis using assms(2) by auto
qed

lemma task_reducer_ids: "task_id ` set (task_reducer state a) \<subseteq> task_id ` set state"
  by (cases "action_type a") (auto simp: task_reducer_def)

lemma task_reducer_fold_ids: "task_id ` set (foldl task_reducer state as) \<subseteq> task_id ` set state"
proof (induction as arbitrary: state)
  case Nil
  then show ?case by simp
next
  case (Cons a as)
  then show ?case using task_reducer_ids[of state a] by fastforce
qed

lemma task_reducer_no_match:
  assumes "task_action_target a \<notin> Some ` task_id ` set state"
  shows "task_reducer state a = state"
proof -
  have ne: "Some (task_id t) \<noteq> task_action_target a" if "t \<in> set state" for t
  proof
    assume "Some (task_id t) = task_action_target a"
    moreover have "Some (task_id t) \<in> Some ` task_id ` set state" using that by blast
    ultimately show False using assms by simp
  qed
  show ?thesis
  proof (cases "action_type a")
    case ToggleType
    with ne have "\<forall>t \<in> set state. Some (task_id t) \<noteq> map_option task_id (action_task a)"
      by (simp add: task_action_target_def)
    then have "map (\<lambda>t. if Some (task_id t) = map_option task_id (action_task a)
                      then t\<lparr>task_completed := \<not> task_completed t\<rparr> else t) state = state"
      by (induction state) auto
    then show ?thesis using ToggleType by (simp add: task_reducer_def)
  next
    case DeleteType
    with ne have "\<forall>t \<in> set state. Some (task_id t) \<noteq> action_id a"
      by (simp add: task_action_target_def)
    then show ?thesis using DeleteType by (simp add: task_reducer_def filter_id_conv)
  qed
qed

text \<open>
  Claim C7. In \<^verbatim>\<open>TodoListEnhanced\<close>, let \<open>a\<close> be a pending toggle or remove of the id
  \<open>i\<close>, and let \<open>i\<close> be the id of no confirmed todo and of no todo that a pending add
  before \<open>a\<close> brings. Then the overlay is the list it would be without \<open>a\<close>, and it has no
  entry with the id \<open>i\<close> when \<open>a\<close> has been applied. In \<^verbatim>\<open>TaskList\<close>, which has no
  add, the same holds for an action whose id (of its task for a toggle, its own for a
  delete) is the id of no confirmed task, or is undefined.
\<close>

theorem update_of_unknown_id_is_noop:
  assumes "i \<notin> todo_id ` set todos" and "i \<notin> todo_id ` set (adds before)"
    and "a = Toggle i \<or> a = Remove i"
    and "task_action_target b \<notin> Some ` task_id ` set tasks"
  shows "optimisticTodos todos (before @ a # after) = optimisticTodos todos (before @ after) \<and>
         i \<notin> todo_id ` set (optimisticTodos todos (before @ [a])) \<and>
         optimisticTasks tasks (earlier @ b # later) = optimisticTasks tasks (earlier @ later) \<and>
         task_action_target b \<notin> Some ` task_id ` set (optimisticTasks tasks (earlier @ [b]))"
proof -
  let ?mid = "foldl todo_reducer todos before"
  have ni: "i \<notin> todo_id ` set ?mid"
    using todo_reducer_ids[of todos before] assms(1,2) by blast
  then have same: "todo_reducer ?mid a = ?mid" using assms(3) by (rule todo_reducer_no_match)
  let ?tmid = "foldl task_reducer tasks earlier"
  have tni: "task_action_target b \<notin> Some ` task_id ` set ?tmid"
    using task_reducer_fold_ids[of tasks earlier] assms(4) by blast
  then have tsame: "task_reducer ?tmid b = ?tmid" by (rule task_reducer_no_match)
  show ?thesis using same ni tsame tni by (simp add: optimisticTodos_def optimisticTasks_def)
qed

theorem update_of_unknown_id_is_noop_witness:
  "''z'' \<notin> todo_id ` set [todo_a] \<and> ''z'' \<notin> todo_id ` set (adds [Add todo_c]) \<and>
   (Toggle ''z'' = Toggle ''z'' \<or> Toggle ''z'' = Remove ''z'') \<and>
   task_action_target delete_z \<notin> Some ` task_id ` set [task_a] \<and>
   optimisticTodos [todo_a] [Toggle ''z''] = [todo_a] \<and>
   optimisticTodos [todo_a] ([Add todo_c] @ Toggle ''z'' # [Remove ''a'']) = [todo_c] \<and>
   optimisticTasks [task_a] [delete_z] = [task_a]"
  using update_of_unknown_id_is_noop[of "''z''" "[todo_a]" "[Add todo_c]" "Toggle ''z''"
          delete_z "[task_a]" "[Remove ''a'']" "[]" "[]"]
    update_of_unknown_id_is_noop[of "''z''" "[todo_a]" "[]" "Toggle ''z''"
          delete_z "[task_a]" "[]" "[]" "[]"]
  by (simp add: optimisticTodos_def optimisticTasks_def todo_a_def todo_c_def task_a_def
        delete_z_def task_action_target_def task_reducer_def)

subsection \<open>Adding and committing\<close>

text \<open>
  Claim C8. With no confirmed todo and one pending add of a todo with the temporary id
  \<open>tmp-1\<close> and the text \<open>X\<close>, the overlay is that one todo. When the add has been
  confirmed with the id \<open>real-1\<close> and committed by \<^verbatim>\<open>setTodos\<close>, and the pending
  update is gone, the confirmed list has exactly one entry, with the id \<open>real-1\<close>, and
  the overlay is that entry alone: no duplicate and nothing left of \<open>tmp-1\<close>.
\<close>

theorem add_then_commit_round_trip:
  "optimisticTodos []
     [Add \<lparr>todo_id = ''tmp-1'', todo_text = ''X'', todo_completed = False, todo_createdAt = t0\<rparr>] =
     [\<lparr>todo_id = ''tmp-1'', todo_text = ''X'', todo_completed = False, todo_createdAt = t0\<rparr>] \<and>
   commit_add
     \<lparr>todo_id = ''real-1'', todo_text = ''X'', todo_completed = False, todo_createdAt = t1\<rparr> [] =
     [\<lparr>todo_id = ''real-1'', todo_text = ''X'', todo_completed = False, todo_createdAt = t1\<rparr>] \<and>
   optimisticTodos
     (commit_add
        \<lparr>todo_id = ''real-1'', todo_text = ''X'', todo_completed = False, todo_createdAt = t1\<rparr> [])
     [] =
     [\<lparr>todo_id = ''real-1'', todo_text = ''X'', todo_completed = False, todo_createdAt = t1\<rparr>] \<and>
   map todo_id
     (optimisticTodos
        (commit_add
           \<lparr>todo_id = ''real-1'', todo_text = ''X'', todo_completed = False, todo_createdAt = t1\<rparr> [])
        []) = [''real-1'']"
  by (simp add: optimisticTodos_def commit_add_def)

section \<open>Properties of the task input\<close>

lemma dropWhile_all: "(\<forall>c \<in> set s. p c) \<Longrightarrow> dropWhile p s = []"
  by (induction s) auto

lemma trim_blank: "(\<forall>c \<in> set s. is_white_space c) \<Longrightarrow> trim s = []"
  by (simp add: trim_def dropWhile_all)

lemma trim_empty_iff: "trim s = [] \<longleftrightarrow> (\<forall>c \<in> set s. is_white_space c)"
proof
  assume "trim s = []"
  then have all: "\<forall>c \<in> set (dropWhile is_white_space s). is_white_space c"
    by (simp add: trim_def dropWhile_eq_Nil_conv)
  have "dropWhile is_white_space s = []"
  proof (rule ccontr)
    assume ne: "dropWhile is_white_space s \<noteq> []"
    then have "\<not> is_white_space (hd (dropWhile is_white_space s))" by (rule hd_dropWhile)
    moreover have "hd (dropWhile is_white_space s) \<in> set (dropWhile is_white_space s)"
      using ne by simp
    ultimately show False using all by blast
  qed
  then show "\<forall>c \<in> set s. is_white_space c" by (simp add: dropWhile_eq_Nil_conv)
next
  assume "\<forall>c \<in> set s. is_white_space c"
  then show "trim s = []" by (rule trim_blank)
qed

text \<open>
  Claim C9. When the submitted title is empty or consists of white space only, the
  action returns the error \<open>Task title is required\<close> and leaves everything as it was:
  \<^verbatim>\<open>createAction\<close> has not been called, and \<^verbatim>\<open>onTaskCreated\<close>, the only
  way to the list of the parent component, has not been called either. The component has
  no optimistic update for a new task.
\<close>

theorem blank_title_is_rejected:
  assumes "\<forall>c \<in> set title. is_white_space c"
  shows "submitAction createAction onTaskCreated title w =
         (\<lparr>form_error = Some ''Task title is required'', form_success = None\<rparr>, w)"
  using assms by (simp add: submitAction_def trim_blank)

theorem blank_title_is_rejected_witness:
  "list_all is_white_space [0x20, 0x09, 0x3000] \<and>
   submitAction echo handleTaskCreated [0x20, 0x09, 0x3000] \<lparr>parent = [], created = []\<rparr> =
     (\<lparr>form_error = Some ''Task title is required'', form_success = None\<rparr>,
      \<lparr>parent = [], created = []\<rparr>) \<and>
   submitAction echo handleTaskCreated [] \<lparr>parent = [], created = []\<rparr> =
     (\<lparr>form_error = Some ''Task title is required'', form_success = None\<rparr>,
      \<lparr>parent = [], created = []\<rparr>)"
  using blank_title_is_rejected[of "[0x20, 0x09, 0x3000]" echo handleTaskCreated
          "\<lparr>parent = [], created = []\<rparr>"]
    blank_title_is_rejected[of "[]" echo handleTaskCreated "\<lparr>parent = [], created = []\<rparr>"]
  by (simp add: is_white_space_def white_space_def)

lemma title_is_trimmed_and_created:
  "submitAction echo handleTaskCreated [0x20, 0x58, 0x20] \<lparr>parent = [], created = []\<rparr> =
     (\<lparr>form_error = None, form_success = Some True\<rparr>, \<lparr>parent = [[0x58]], created = [[0x58]]\<rparr>)"
  by (simp add: submitAction_def trim_def is_white_space_def white_space_def echo_def
        handleTaskCreated_def)


end
